theory Spec2Isabelle
  imports Main
begin

section \<open>JavaScript strings\<close>

text \<open>
  A string is a sequence of code units. The model covers the code units below 256 (the
  Latin-1 range), one \<^typ>\<open>char\<close> each, so \<open>length\<close> is the \<open>.length\<close> of the source.
\<close>

definition newline :: char where
  "newline = CHR 0x0A"

definition dquote :: char where
  "dquote = CHR 0x22"

definition backslash :: char where
  "backslash = CHR 0x5C"

definition isWhiteSpace :: "char \<Rightarrow> bool" where
  \<comment> \<open>the characters matched by \<open>\s\<close> and stripped by \<open>trim()\<close>: TAB, LF, VT, FF, CR, SP, NBSP\<close>
  "isWhiteSpace c = ((of_char c :: nat) \<in> set [9, 10, 11, 12, 13, 32, 160])"

definition isLineTerminator :: "char \<Rightarrow> bool" where
  \<comment> \<open>the characters that \<open>.\<close> does not match: LF and CR\<close>
  "isLineTerminator c = ((of_char c :: nat) \<in> set [10, 13])"

definition isDigit :: "char \<Rightarrow> bool" where
  "isDigit c = (48 \<le> (of_char c :: nat) \<and> (of_char c :: nat) \<le> 57)"

definition isAsciiLetter :: "char \<Rightarrow> bool" where
  "isAsciiLetter c =
     ((65 \<le> (of_char c :: nat) \<and> (of_char c :: nat) \<le> 90) \<or>
      (97 \<le> (of_char c :: nat) \<and> (of_char c :: nat) \<le> 122))"

definition isWordChar :: "char \<Rightarrow> bool" where
  \<comment> \<open>the characters matched by \<open>\w\<close>\<close>
  "isWordChar c = (isAsciiLetter c \<or> isDigit c \<or> c = CHR ''_'')"

definition canonicalize :: "char \<Rightarrow> char" where
  \<comment> \<open>Canonicalize of the \<open>i\<close> flag (upper case of one code unit); on Latin-1 the letters
      a-z and 0xE0-0xFE without 0xF7 move down by 32, every other code unit is fixed\<close>
  "canonicalize c =
     (let n = (of_char c :: nat)
      in if (97 \<le> n \<and> n \<le> 122) \<or> (224 \<le> n \<and> n \<le> 254 \<and> n \<noteq> 247)
         then char_of (n - 32) else c)"

definition trim :: "string \<Rightarrow> string" where
  "trim s = rev (dropWhile isWhiteSpace (rev (dropWhile isWhiteSpace s)))"

function js_split :: "string \<Rightarrow> string \<Rightarrow> string list" where
  "js_split sep s =
     (if sep = [] then map (\<lambda>c. [c]) s
      else if s = [] then [[]]
      else if take (length sep) s = sep then [] # js_split sep (drop (length sep) s)
      else (case js_split sep (tl s) of
              [] \<Rightarrow> [[hd s]]
            | l # ls \<Rightarrow> (hd s # l) # ls))"
  by pat_completeness auto
termination
  by (relation "measure (\<lambda>(sep, s). length s)") auto

declare js_split.simps [simp del]

fun js_join :: "string \<Rightarrow> string list \<Rightarrow> string" where
  "js_join sep [] = []"
| "js_join sep [x] = x"
| "js_join sep (x # y # ys) = x @ sep @ js_join sep (y # ys)"

definition js_slice_list :: "'a list \<Rightarrow> int \<Rightarrow> int \<Rightarrow> 'a list" where
  \<comment> \<open>\<open>slice(a, b)\<close> of strings and arrays: a negative index counts from the end\<close>
  "js_slice_list xs a b =
     (let len = int (length xs);
          lo = (if a < 0 then max (len + a) 0 else min a len);
          hi = (if b < 0 then max (len + b) 0 else min b len)
      in take (nat (hi - lo)) (drop (nat lo) xs))"

definition parseInt :: "string \<Rightarrow> nat" where
  \<comment> \<open>\<open>parseInt\<close> on a string of decimal digits. The source gets a double; the value
      is only compared with an array length and used as a slice bound, where a rounded
      value above \<open>2^53\<close> behaves as the exact one does\<close>
  "parseInt ds = foldl (\<lambda>n c. 10 * n + ((of_char c :: nat) - 48)) 0 ds"

section \<open>Regular expressions built at run time\<close>

text \<open>
  \<open>new RegExp(pattern, 'i')\<close> either throws a SyntaxError or yields a matcher. The
  model covers the patterns made of literal characters, \<open>.\<close>, \<open>^\<close>, \<open>$\<close>, \<open>|\<close>,
  groups \<open>(...)\<close> and \<open>(?:...)\<close>, the quantifiers \<open>*\<close>, \<open>+\<close>, \<open>?\<close>, \<open>{n}\<close>,
  \<open>{n,}\<close>, \<open>{n,m}\<close> (greedy or lazy), the escapes \<open>\d \D \w \W \s \S \t \n \v \f \r\<close>
  and escaped punctuation. For a pattern with a character class, a look-around, a named
  group, a back reference or another escape the model gives \<open>None\<close>.
\<close>

datatype ErrorKind =
    URLFormatError
  | NetworkError
  | ServerError
  | ContentError
  | ConversionError
  | TimeoutError
  | UnexpectedError

datatype jserror =
    MCPSearXNGError ErrorKind
  | JsError string

primrec error_name :: "jserror \<Rightarrow> string" where
  \<comment> \<open>the \<open>name\<close> property of a thrown error\<close>
  "error_name (MCPSearXNGError k) = ''MCPSearXNGError''"
| "error_name (JsError n) = n"

definition SyntaxError :: jserror where
  "SyntaxError = JsError ''SyntaxError''"

datatype atom = Lit char | AnyChar | ClassDigit bool | ClassWord bool | ClassSpace bool

datatype regex =
    Eps
  | Atm atom
  | Bol
  | Eol
  | Seq regex regex
  | Alt regex regex
  | Rep nat "nat option" regex

datatype token =
    TAtom atom
  | TBol
  | TEol
  | TQuant nat "nat option"
  | TOpen
  | TClose
  | TBar
  | TBad
  | TUnsupp

definition escapeToken :: "char \<Rightarrow> token" where
  "escapeToken d =
     (if d = CHR ''d'' then TAtom (ClassDigit True)
      else if d = CHR ''D'' then TAtom (ClassDigit False)
      else if d = CHR ''w'' then TAtom (ClassWord True)
      else if d = CHR ''W'' then TAtom (ClassWord False)
      else if d = CHR ''s'' then TAtom (ClassSpace True)
      else if d = CHR ''S'' then TAtom (ClassSpace False)
      else if d = CHR ''t'' then TAtom (Lit (CHR 0x09))
      else if d = CHR ''n'' then TAtom (Lit (CHR 0x0A))
      else if d = CHR ''v'' then TAtom (Lit (CHR 0x0B))
      else if d = CHR ''f'' then TAtom (Lit (CHR 0x0C))
      else if d = CHR ''r'' then TAtom (Lit (CHR 0x0D))
      else if isAsciiLetter d \<or> isDigit d then TUnsupp
      else TAtom (Lit d))"

definition braceQuantifier :: "string \<Rightarrow> ((nat \<times> nat option) \<times> nat) option" where
  \<comment> \<open>on the text after \<open>{\<close>: the bounds of \<open>n}\<close>, \<open>n,}\<close> or \<open>n,m}\<close> and the number of
      characters read, or \<open>None\<close> when the brace is an ordinary character\<close>
  "braceQuantifier s =
     (let ds = takeWhile isDigit s; r = dropWhile isDigit s
      in if ds = [] then None
         else (case r of
                 [] \<Rightarrow> None
               | c # r' \<Rightarrow>
                   if c = CHR ''}'' then Some ((parseInt ds, Some (parseInt ds)), length ds + 1)
                   else if c = CHR '','' then
                     (let es = takeWhile isDigit r'; r'' = dropWhile isDigit r'
                      in (case r'' of
                            [] \<Rightarrow> None
                          | d # _ \<Rightarrow>
                              if d = CHR ''}''
                              then Some ((parseInt ds, if es = [] then None else Some (parseInt es)),
                                         length ds + 1 + length es + 1)
                              else None))
                   else None))"

definition skipLazy :: "string \<Rightarrow> string" where
  \<comment> \<open>the \<open>?\<close> that makes a quantifier lazy; it does not change whether a match exists\<close>
  "skipLazy cs = (case cs of [] \<Rightarrow> [] | q # r \<Rightarrow> if q = CHR ''?'' then r else cs)"

function tokenize :: "string \<Rightarrow> token list" where
  "tokenize [] = []"
| "tokenize (c # cs) =
     (if c = backslash then
        (case cs of [] \<Rightarrow> [TBad] | d # ds \<Rightarrow> escapeToken d # tokenize ds)
      else if c = CHR ''('' then
        (case cs of
           [] \<Rightarrow> [TOpen]
         | q # cs' \<Rightarrow>
             if q = CHR ''?'' then
               (case cs' of
                  [] \<Rightarrow> [TUnsupp]
                | k # cs'' \<Rightarrow> if k = CHR '':'' then TOpen # tokenize cs'' else [TUnsupp])
             else TOpen # tokenize cs)
      else if c = CHR '')'' then TClose # tokenize cs
      else if c = CHR ''|'' then TBar # tokenize cs
      else if c = CHR ''^'' then TBol # tokenize cs
      else if c = CHR ''$'' then TEol # tokenize cs
      else if c = CHR ''.'' then TAtom AnyChar # tokenize cs
      else if c = CHR ''['' then [TUnsupp]
      else if c = CHR ''*'' then TQuant 0 None # tokenize (skipLazy cs)
      else if c = CHR ''+'' then TQuant 1 None # tokenize (skipLazy cs)
      else if c = CHR ''?'' then TQuant 0 (Some 1) # tokenize (skipLazy cs)
      else if c = CHR ''{'' then
        (case braceQuantifier cs of
           None \<Rightarrow> TAtom (Lit c) # tokenize cs
         | Some (b, k) \<Rightarrow> TQuant (fst b) (snd b) # tokenize (skipLazy (drop k cs)))
      else TAtom (Lit c) # tokenize cs)"
  by pat_completeness auto
termination
proof -
  have skip: "length (skipLazy xs) < Suc (length xs)" for xs
    by (simp add: skipLazy_def less_Suc_eq_le split: list.splits)
  have skip_drop: "length (skipLazy (drop k xs)) < Suc (length xs)" for k xs
    using skip [of "drop k xs"] by simp
  show ?thesis
    by (relation "measure length") (auto simp: skip skip_drop)
qed

type_synonym frame = "regex list \<times> regex list \<times> bool"

definition seqOf :: "regex list \<Rightarrow> regex" where
  \<comment> \<open>the terms of one alternative, last term first\<close>
  "seqOf ts = foldl (\<lambda>acc t. Seq t acc) Eps ts"

definition closeFrame :: "frame \<Rightarrow> regex" where
  \<comment> \<open>the disjunction of the finished alternatives (last first) and the current one\<close>
  "closeFrame fr = (case fr of (alts, terms, q) \<Rightarrow> foldl (\<lambda>acc a. Alt a acc) (seqOf terms) alts)"

fun parseTokens :: "token list \<Rightarrow> frame \<Rightarrow> frame list \<Rightarrow> (jserror + regex) option" where
  "parseTokens [] fr stack =
     (if stack = [] then Some (Inr (closeFrame fr)) else Some (Inl SyntaxError))"
| "parseTokens (TAtom a # ts) (alts, terms, q) stack =
     parseTokens ts (alts, Atm a # terms, True) stack"
| "parseTokens (TBol # ts) (alts, terms, q) stack =
     parseTokens ts (alts, Bol # terms, False) stack"
| "parseTokens (TEol # ts) (alts, terms, q) stack =
     parseTokens ts (alts, Eol # terms, False) stack"
| "parseTokens (TQuant n m # ts) (alts, terms, q) stack =
     (case terms of
        [] \<Rightarrow> Some (Inl SyntaxError)
      | x # xs \<Rightarrow>
          if q \<and> (case m of None \<Rightarrow> True | Some k \<Rightarrow> n \<le> k)
          then parseTokens ts (alts, Rep n m x # xs, False) stack
          else Some (Inl SyntaxError))"
| "parseTokens (TOpen # ts) fr stack = parseTokens ts ([], [], False) (fr # stack)"
| "parseTokens (TClose # ts) fr stack =
     (case stack of
        [] \<Rightarrow> Some (Inl SyntaxError)
      | (alts', terms', q') # stack' \<Rightarrow>
          parseTokens ts (alts', closeFrame fr # terms', True) stack')"
| "parseTokens (TBar # ts) (alts, terms, q) stack =
     parseTokens ts (seqOf terms # alts, [], False) stack"
| "parseTokens (TBad # ts) fr stack = Some (Inl SyntaxError)"
| "parseTokens (TUnsupp # ts) fr stack = None"

definition RegExp_i :: "string \<Rightarrow> (jserror + regex) option" where
  \<comment> \<open>\<open>new RegExp(pattern, 'i')\<close>\<close>
  "RegExp_i pattern = parseTokens (tokenize pattern) ([], [], False) []"

definition atomMatches :: "atom \<Rightarrow> char \<Rightarrow> bool" where
  "atomMatches a c =
     (case a of
        Lit x \<Rightarrow> canonicalize x = canonicalize c
      | AnyChar \<Rightarrow> \<not> isLineTerminator c
      | ClassDigit pos \<Rightarrow> isDigit c = pos
      | ClassWord pos \<Rightarrow> isWordChar c = pos
      | ClassSpace pos \<Rightarrow> isWhiteSpace c = pos)"

type_synonym matcher = "nat \<Rightarrow> nat list"

fun iterMin :: "matcher \<Rightarrow> nat \<Rightarrow> nat list \<Rightarrow> nat list" where
  \<comment> \<open>the iterations a quantifier requires\<close>
  "iterMin f 0 ps = ps"
| "iterMin f (Suc n) ps = iterMin f n (remdups (concat (map f ps)))"

fun iterOpt :: "matcher \<Rightarrow> nat \<Rightarrow> nat list \<Rightarrow> nat list" where
  \<comment> \<open>up to \<open>k\<close> further iterations; one that matches the empty string is rejected\<close>
  "iterOpt f 0 ps = ps"
| "iterOpt f (Suc k) ps =
     (if ps = [] then []
      else ps @ iterOpt f k (remdups (concat (map (\<lambda>i. filter (\<lambda>j. i < j) (f i)) ps))))"

primrec ends :: "string \<Rightarrow> regex \<Rightarrow> matcher" where
  \<comment> \<open>\<open>ends s r i\<close>: the positions where a match of \<open>r\<close> that starts at \<open>i\<close> can end\<close>
  "ends s Eps = (\<lambda>i. [i])"
| "ends s (Atm a) = (\<lambda>i. if i < length s \<and> atomMatches a (s ! i) then [Suc i] else [])"
| "ends s Bol = (\<lambda>i. if i = 0 then [i] else [])"
| "ends s Eol = (\<lambda>i. if i = length s then [i] else [])"
| "ends s (Seq a b) = (\<lambda>i. remdups (concat (map (ends s b) (ends s a i))))"
| "ends s (Alt a b) = (\<lambda>i. remdups (ends s a i @ ends s b i))"
| "ends s (Rep n m r) =
     (\<lambda>i. remdups (iterOpt (ends s r) (case m of None \<Rightarrow> length s | Some k \<Rightarrow> k - n)
                     (iterMin (ends s r) n [i])))"

definition regex_test :: "regex \<Rightarrow> string \<Rightarrow> bool" where
  \<comment> \<open>\<open>re.test(s)\<close> without the \<open>g\<close> and \<open>y\<close> flags: a match may start anywhere\<close>
  "regex_test re s = list_ex (\<lambda>i. ends s re i \<noteq> []) [0..<Suc (length s)]"

section \<open>Extraction engine\<close>

record PaginationOptions =
  startChar :: "int option"
  maxLength :: "int option"
  section' :: "string option"
  paragraphRange :: "string option"
  readHeadings :: "bool option"

definition applyCharacterPagination :: "string \<Rightarrow> int option \<Rightarrow> int option \<Rightarrow> string" where
  \<comment> \<open>\<open>startChar\<close> defaults to 0; \<open>maxLength ? a : b\<close> takes \<open>b\<close> for undefined and for 0\<close>
  "applyCharacterPagination content startChar' maxLength' =
     (let startChar = (case startChar' of None \<Rightarrow> 0 | Some n \<Rightarrow> n)
      in if startChar \<ge> int (length content) then []
         else
           (let start = max 0 startChar;
                end' = (case maxLength' of
                         None \<Rightarrow> int (length content)
                       | Some m \<Rightarrow>
                           if m \<noteq> 0 then min (int (length content)) (start + m)
                           else int (length content))
            in js_slice_list content start end'))"

definition hashRun :: "string \<Rightarrow> nat" where
  \<comment> \<open>the length of the match of \<open>/^#+/\<close>; 0 when there is no match\<close>
  "hashRun line = length (takeWhile (\<lambda>c. c = CHR ''#'') line)"

function findSectionStart :: "regex \<Rightarrow> string list \<Rightarrow> nat \<Rightarrow> (nat \<times> nat) option" where
  \<comment> \<open>the first loop of \<open>extractSection\<close>, from index \<open>i\<close>: \<open>startIndex\<close> and
      \<open>currentLevel\<close>, or \<open>None\<close> when \<open>startIndex\<close> stays -1\<close>
  "findSectionStart sectionRegex lines i =
     (if i < length lines then
        (if regex_test sectionRegex (lines ! i) then Some (i, hashRun (lines ! i))
         else findSectionStart sectionRegex lines (i + 1))
      else None)"
  by pat_completeness auto
termination
  by (relation "measure (\<lambda>(r, lines, i). length lines - i)") auto

declare findSectionStart.simps [simp del]

function findSectionEnd :: "nat \<Rightarrow> string list \<Rightarrow> nat \<Rightarrow> nat" where
  \<comment> \<open>the second loop of \<open>extractSection\<close>, from index \<open>i\<close>: \<open>endIndex\<close>\<close>
  "findSectionEnd currentLevel lines i =
     (if i < length lines then
        (if 0 < hashRun (lines ! i) \<and> hashRun (lines ! i) \<le> currentLevel then i
         else findSectionEnd currentLevel lines (i + 1))
      else length lines)"
  by pat_completeness auto
termination
  by (relation "measure (\<lambda>(l, lines, i). length lines - i)") auto

declare findSectionEnd.simps [simp del]

definition sectionPattern :: "string \<Rightarrow> string" where
  \<comment> \<open>the template literal of line 39; in it \<open>\s\<close> is the letter s\<close>
  "sectionPattern sectionHeading = ''^#{1,6}s*.*'' @ sectionHeading @ ''.*$''"

definition extractSection :: "string \<Rightarrow> string \<Rightarrow> (jserror + string) option" where
  "extractSection markdownContent sectionHeading =
     (let lines = js_split [newline] markdownContent
      in case RegExp_i (sectionPattern sectionHeading) of
           None \<Rightarrow> None
         | Some (Inl e) \<Rightarrow> Some (Inl e)
         | Some (Inr sectionRegex) \<Rightarrow>
             (case findSectionStart sectionRegex lines 0 of
                None \<Rightarrow> Some (Inr [])
              | Some (startIndex, currentLevel) \<Rightarrow>
                  (let endIndex = findSectionEnd currentLevel lines (startIndex + 1)
                   in Some (Inr (js_join [newline]
                                   (js_slice_list lines (int startIndex) (int endIndex)))))))"

definition matchRange :: "string \<Rightarrow> (string \<times> string option) option" where
  \<comment> \<open>\<open>range.match(/^(\d+)(?:-(\d*))?$/)\<close>: groups 1 and 2, \<open>None\<close> for an undefined group 2\<close>
  "matchRange range' =
     (let ds = takeWhile isDigit range'; rest = dropWhile isDigit range'
      in if ds = [] then None
         else (case rest of
                 [] \<Rightarrow> Some (ds, None)
               | c # es \<Rightarrow>
                   if c = CHR ''-'' \<and> list_all isDigit es then Some (ds, Some es) else None))"

definition extractParagraphRange :: "string \<Rightarrow> string \<Rightarrow> string" where
  \<comment> \<open>\<open>paragraphs[start] || ""\<close> is \<open>paragraphs[start]\<close>: the index is in range there and
      no paragraph is empty after the filter\<close>
  "extractParagraphRange markdownContent range' =
     (let paragraphs = filter (\<lambda>p. length (trim p) > 0) (js_split [newline, newline] markdownContent)
      in case matchRange range' of
           None \<Rightarrow> []
         | Some (g1, endStr) \<Rightarrow>
             (let start = int (parseInt g1) - 1
              in if start < 0 \<or> start \<ge> int (length paragraphs) then []
                 else
                   (case endStr of
                      None \<Rightarrow> paragraphs ! nat start
                    | Some es \<Rightarrow>
                        if es = [] then
                          js_join [newline, newline]
                            (js_slice_list paragraphs start (int (length paragraphs)))
                        else
                          js_join [newline, newline]
                            (js_slice_list paragraphs start (int (parseInt es))))))"

definition isHeadingLine :: "string \<Rightarrow> bool" where
  \<comment> \<open>\<open>/^#{1,6}\s/.test(line)\<close>: the run of \<open>#\<close> that starts the line has 1 to 6
      characters and a white space character follows it\<close>
  "isHeadingLine line =
     (let n = hashRun line
      in 1 \<le> n \<and> n \<le> 6 \<and> n < length line \<and> isWhiteSpace (line ! n))"

definition extractHeadings :: "string \<Rightarrow> string" where
  "extractHeadings markdownContent =
     (let lines = js_split [newline] markdownContent;
          headings = filter isHeadingLine lines
      in if length headings = 0 then ''No headings found in the content.''
         else js_join [newline] headings)"

definition sectionNotFound :: "string \<Rightarrow> string" where
  "sectionNotFound s = ''Section '' @ [dquote] @ s @ [dquote] @ '' not found in the content.''"

definition rangeInvalid :: "string \<Rightarrow> string" where
  "rangeInvalid r =
     ''Paragraph range '' @ [dquote] @ r @ [dquote] @ '' is invalid or out of bounds.''"

definition applyCharacterOption :: "string \<Rightarrow> PaginationOptions \<Rightarrow> string" where
  \<comment> \<open>lines 136-141\<close>
  "applyCharacterOption result options =
     (if startChar options \<noteq> None \<or> maxLength options \<noteq> None
      then applyCharacterPagination result (startChar options) (maxLength options)
      else result)"

definition applyParagraphOption :: "string \<Rightarrow> PaginationOptions \<Rightarrow> string" where
  \<comment> \<open>lines 128-141; the empty string is falsy, so \<open>paragraphRange: ""\<close> is skipped\<close>
  "applyParagraphOption result options =
     (case paragraphRange options of
        None \<Rightarrow> applyCharacterOption result options
      | Some r \<Rightarrow>
          if r = [] then applyCharacterOption result options
          else
            (let result' = extractParagraphRange result r
             in if result' = [] then rangeInvalid r
                else applyCharacterOption result' options))"

definition applyPaginationOptions :: "string \<Rightarrow> PaginationOptions \<Rightarrow> (jserror + string) option" where
  "applyPaginationOptions markdownContent options =
     (if readHeadings options = Some True then Some (Inr (extractHeadings markdownContent))
      else
        (case section' options of
           None \<Rightarrow> Some (Inr (applyParagraphOption markdownContent options))
         | Some s \<Rightarrow>
             if s = [] then Some (Inr (applyParagraphOption markdownContent options))
             else
               (case extractSection markdownContent s of
                  None \<Rightarrow> None
                | Some (Inl e) \<Rightarrow> Some (Inl e)
                | Some (Inr result) \<Rightarrow>
                    if result = [] then Some (Inr (sectionNotFound s))
                    else Some (Inr (applyParagraphOption result options)))))"

definition noOptions :: PaginationOptions where
  "noOptions =
     \<lparr>startChar = None, maxLength = None, section' = None, paragraphRange = None,
      readHeadings = None\<rparr>"

section \<open>Document cache\<close>

record CacheEntry =
  htmlContent :: string
  markdownContent :: string
  timestamp :: int

record SimpleCache =
  cache :: "string \<rightharpoonup> CacheEntry"
  ttlMs :: int

definition SimpleCache_get :: "int \<Rightarrow> string \<Rightarrow> SimpleCache \<Rightarrow> CacheEntry option \<times> SimpleCache" where
  \<comment> \<open>\<open>now\<close> is the value of \<open>Date.now()\<close> in the call\<close>
  "SimpleCache_get now url c =
     (case cache c url of
        None \<Rightarrow> (None, c)
      | Some entry \<Rightarrow>
          if now - timestamp entry > ttlMs c
          then (None, c\<lparr>cache := (cache c)(url := None)\<rparr>)
          else (Some entry, c))"

definition SimpleCache_set :: "int \<Rightarrow> string \<Rightarrow> string \<Rightarrow> string \<Rightarrow> SimpleCache \<Rightarrow> SimpleCache" where
  "SimpleCache_set now url html markdown c =
     c\<lparr>cache := (cache c)(url \<mapsto>
          \<lparr>htmlContent = html, markdownContent = markdown, timestamp = now\<rparr>)\<rparr>"

section \<open>Retrieval orchestrator\<close>

text \<open>
  Modelled from the spec: the constructors of \<open>error-handler.js\<close>, which is not among
  the sources. Each builds the error of its kind of the taxonomy; all of them are the
  "enhanced errors" that line 257 recognises by the name \<open>MCPSearXNGError\<close>. The
  message and the context of an error are left out.
\<close>

definition createURLFormatError :: "string \<Rightarrow> jserror" where
  \<comment> \<open>Modelled from the spec: \<open>createURLFormatError\<close> of \<open>error-handler.js\<close> builds the \<open>URLFormatError\<close>\<close>
  "createURLFormatError url = MCPSearXNGError URLFormatError"

definition createNetworkError :: "jserror \<Rightarrow> string \<Rightarrow> bool \<Rightarrow> int \<Rightarrow> jserror" where
  \<comment> \<open>Modelled from the spec: \<open>createNetworkError\<close> of \<open>error-handler.js\<close> builds the \<open>NetworkError\<close>\<close>
  "createNetworkError error url proxyAgent timeout = MCPSearXNGError NetworkError"

definition createServerError :: "nat \<Rightarrow> string \<Rightarrow> string \<Rightarrow> string \<Rightarrow> jserror" where
  \<comment> \<open>Modelled from the spec: \<open>createServerError\<close> of \<open>error-handler.js\<close> builds the \<open>ServerError\<close>\<close>
  "createServerError status statusText responseBody url = MCPSearXNGError ServerError"

definition createContentError :: "string \<Rightarrow> string \<Rightarrow> jserror" where
  \<comment> \<open>Modelled from the spec: \<open>createContentError\<close> of \<open>error-handler.js\<close> builds the \<open>ContentError\<close>\<close>
  "createContentError message url = MCPSearXNGError ContentError"

definition createConversionError :: "jserror \<Rightarrow> string \<Rightarrow> string \<Rightarrow> jserror" where
  \<comment> \<open>Modelled from the spec: \<open>createConversionError\<close> of \<open>error-handler.js\<close> builds the \<open>ConversionError\<close>\<close>
  "createConversionError error url html = MCPSearXNGError ConversionError"

definition createTimeoutError :: "int \<Rightarrow> string \<Rightarrow> jserror" where
  \<comment> \<open>Modelled from the spec: \<open>createTimeoutError\<close> of \<open>error-handler.js\<close> builds the \<open>TimeoutError\<close>\<close>
  "createTimeoutError timeout url = MCPSearXNGError TimeoutError"

definition createUnexpectedError :: "jserror \<Rightarrow> string \<Rightarrow> jserror" where
  \<comment> \<open>Modelled from the spec: \<open>createUnexpectedError\<close> of \<open>error-handler.js\<close> builds the \<open>UnexpectedError\<close>\<close>
  "createUnexpectedError error url = MCPSearXNGError UnexpectedError"

record Response =
  ok :: bool
  status :: nat
  statusText :: string
  text' :: "jserror + string"

text \<open>
  What one invocation meets outside the program: the clock, the URL parser, the proxy
  configuration, the network, the converter, and the wording of the warning. A failed
  call is \<open>Inl\<close> of the error thrown; a fetch cancelled by the timer fails with an error
  named \<open>AbortError\<close>. \<open>logMessage\<close> catches what its notification throws and returns
  nothing, so the calls to it are left out, as are the start time and the duration.
\<close>

record World =
  now_get :: int
  now_set :: int
  newURL :: "string \<Rightarrow> bool"
  createProxyAgent :: "string \<Rightarrow> jserror + bool"
  fetch :: "string \<Rightarrow> jserror + Response"
  translate :: "string \<Rightarrow> jserror + string"
  createEmptyContentWarning :: "string \<Rightarrow> nat \<Rightarrow> string \<Rightarrow> string"

definition AbortError :: jserror where
  "AbortError = JsError ''AbortError''"

type_synonym outcome = "(jserror + string) option \<times> SimpleCache"

definition tryBlock :: "World \<Rightarrow> string \<Rightarrow> int \<Rightarrow> PaginationOptions \<Rightarrow> SimpleCache \<Rightarrow> outcome" where
  \<comment> \<open>lines 176-250\<close>
  "tryBlock w url timeoutMs paginationOptions c =
     (case createProxyAgent w url of
        Inl error \<Rightarrow> (Some (Inl error), c)
      | Inr proxyAgent \<Rightarrow>
     (case fetch w url of
        Inl error \<Rightarrow> (Some (Inl (createNetworkError error url proxyAgent timeoutMs)), c)
      | Inr response \<Rightarrow>
     if \<not> ok response then
       (let responseBody = (case text' response of
                              Inl error \<Rightarrow> ''[Could not read response body]''
                            | Inr body \<Rightarrow> body)
        in (Some (Inl (createServerError (status response) (statusText response) responseBody url)), c))
     else
     (case text' response of
        Inl error \<Rightarrow> (Some (Inl (createContentError ''Failed to read website content'' url)), c)
      | Inr html \<Rightarrow>
     if html = [] \<or> length (trim html) = 0 then
       (Some (Inl (createContentError ''Website returned empty content.'' url)), c)
     else
     (case translate w html of
        Inl error \<Rightarrow> (Some (Inl (createConversionError error url html)), c)
      | Inr markdown \<Rightarrow>
     if markdown = [] \<or> length (trim markdown) = 0 then
       (Some (Inr (createEmptyContentWarning w url (length html) html)), c)
     else
     (let c' = SimpleCache_set (now_set w) url html markdown c
      in (applyPaginationOptions markdown paginationOptions, c'))))))"

definition catchBlock :: "int \<Rightarrow> string \<Rightarrow> jserror \<Rightarrow> jserror" where
  \<comment> \<open>lines 251-265: the error that the catch clause throws\<close>
  "catchBlock timeoutMs url error =
     (if error_name error = ''AbortError'' then createTimeoutError timeoutMs url
      else if error_name error = ''MCPSearXNGError'' then error
      else createUnexpectedError error url)"

definition fetchAndConvertToMarkdown ::
    "World \<Rightarrow> string \<Rightarrow> int \<Rightarrow> PaginationOptions \<Rightarrow> SimpleCache \<Rightarrow> outcome" where
  "fetchAndConvertToMarkdown w url timeoutMs paginationOptions c =
     (case SimpleCache_get (now_get w) url c of
        (Some cachedEntry, c1) \<Rightarrow>
          (applyPaginationOptions (markdownContent cachedEntry) paginationOptions, c1)
      | (None, c1) \<Rightarrow>
          if \<not> newURL w url then (Some (Inl (createURLFormatError url)), c1)
          else
            (case tryBlock w url timeoutMs paginationOptions c1 of
               (Some (Inl error), c2) \<Rightarrow> (Some (Inl (catchBlock timeoutMs url error)), c2)
             | r \<Rightarrow> r))"

section \<open>Section headings without pattern characters\<close>

definition plainChar :: "char \<Rightarrow> bool" where
  \<comment> \<open>a character that stands for itself in a pattern\<close>
  "plainChar c = (c \<notin> set (backslash # ''^$.*+?()[]{}|''))"

definition sectionRegex :: "string \<Rightarrow> regex" where
  \<comment> \<open>the pattern of line 39 for a heading of plain characters, parsed\<close>
  "sectionRegex h =
     foldr Seq
       ([Bol, Rep 1 (Some 6) (Atm (Lit (CHR ''#''))), Rep 0 None (Atm (Lit (CHR ''s''))),
         Rep 0 None (Atm AnyChar)] @ map (\<lambda>c. Atm (Lit c)) h @ [Rep 0 None (Atm AnyChar), Eol])
       Eps"

definition runOf :: "atom \<Rightarrow> string \<Rightarrow> nat \<Rightarrow> nat \<Rightarrow> bool" where
  \<comment> \<open>the characters of \<open>s\<close> from \<open>i\<close> up to \<open>j\<close> exist and all match the atom\<close>
  "runOf a s i j = (\<forall>k. i \<le> k \<and> k < j \<longrightarrow> k < length s \<and> atomMatches a (s ! k))"

definition sectionStart_spec :: "string \<Rightarrow> string \<Rightarrow> bool" where
  \<comment> \<open>the spec's words for the line that starts a section: a line that begins with
      \<open>#\<close> markers and whose text contains the requested heading, compared without regard
      to case. As the code has it: 1 to 6 \<open>#\<close> are taken for the markers, the heading is
      found anywhere after them, and the line holds no carriage return outside the
      occurrence of the heading\<close>
  "sectionStart_spec heading line =
     (\<exists>n \<in> {1..6}. \<exists>j \<in> {n..length line}.
        take n line = replicate n (CHR ''#'') \<and>
        (\<forall>k \<in> {n..<j}. \<not> isLineTerminator (line ! k)) \<and>
        j + length heading \<le> length line \<and>
        map canonicalize (take (length heading) (drop j line)) = map canonicalize heading \<and>
        (\<forall>k \<in> {j + length heading..<length line}. \<not> isLineTerminator (line ! k)))"

section \<open>The specification's notions\<close>

definition headingLine_spec :: "string \<Rightarrow> bool" where
  \<comment> \<open>the spec's words: a line beginning with 1-6 \<open>#\<close> markers followed by whitespace\<close>
  "headingLine_spec l =
     (\<exists>n \<in> {1..6}. n < length l \<and> take n l = replicate n (CHR ''#'') \<and> isWhiteSpace (l ! n))"

definition nonblankEntries :: "SimpleCache \<Rightarrow> bool" where
  \<comment> \<open>the invariant of the data model: every stored entry has non-empty converted text\<close>
  "nonblankEntries c = (\<forall>u e. cache c u = Some e \<longrightarrow> trim (markdownContent e) \<noteq> [])"

definition digit_spec :: "char \<Rightarrow> bool" where
  \<comment> \<open>a decimal digit\<close>
  "digit_spec c = (c \<in> set ''0123456789'')"

definition rangeForm_spec :: "string \<Rightarrow> bool" where
  \<comment> \<open>the spec's words for a range string: \<open>N\<close>, \<open>N-\<close> or \<open>N-M\<close>, that is, one or more
      digits, alone or followed by a hyphen and any number of digits\<close>
  "rangeForm_spec r =
     list_ex
       (\<lambda>k. list_all digit_spec (take k r) \<and>
            (case drop k r of
               [] \<Rightarrow> True
             | c # es \<Rightarrow> c = CHR ''-'' \<and> list_all digit_spec es))
       [1..<Suc (length r)]"






section \<open>Concrete inputs\<close>

definition exampleDoc :: string where
  "exampleDoc = ''# A\<newline>## B\<newline>text1\<newline># C\<newline>text2''"

definition regexA :: regex where
  \<comment> \<open>what \<open>new RegExp\<close> builds for the section heading \<open>A\<close>\<close>
  "regexA =
     Seq Bol
       (Seq (Rep 1 (Some 6) (Atm (Lit (CHR ''#''))))
         (Seq (Rep 0 None (Atm (Lit (CHR ''s''))))
           (Seq (Rep 0 None (Atm AnyChar))
             (Seq (Atm (Lit (CHR ''A'')))
               (Seq (Rep 0 None (Atm AnyChar)) (Seq Eol Eps))))))"

definition threeParagraphs :: string where
  "threeParagraphs = ''p1\<newline>\<newline>p2\<newline>\<newline>  \<newline>\<newline>p3''"

definition entry0 :: CacheEntry where
  "entry0 = \<lparr>htmlContent = ''<p>x</p>'', markdownContent = ''x'', timestamp = 1000\<rparr>"

definition cache0 :: SimpleCache where
  "cache0 = \<lparr>cache = [''u'' \<mapsto> entry0], ttlMs = 60000\<rparr>"

definition emptyCache :: SimpleCache where
  "emptyCache = \<lparr>cache = Map.empty, ttlMs = 60000\<rparr>"

definition worldAbort :: World where
  \<comment> \<open>the timer fires while the fetch is in flight\<close>
  "worldAbort =
     \<lparr>now_get = 0, now_set = 0, newURL = (\<lambda>u. True), createProxyAgent = (\<lambda>u. Inr False),
      fetch = (\<lambda>u. Inl AbortError), translate = (\<lambda>h. Inr h),
      createEmptyContentWarning = (\<lambda>u n h. ''Content Warning: empty after conversion'')\<rparr>"

definition worldBlank :: World where
  \<comment> \<open>the page is fetched and converts to two spaces\<close>
  "worldBlank =
     \<lparr>now_get = 0, now_set = 0, newURL = (\<lambda>u. True), createProxyAgent = (\<lambda>u. Inr False),
      fetch = (\<lambda>u. Inr \<lparr>ok = True, status = 200, statusText = ''OK'',
                         text' = Inr ''<img src=x>''\<rparr>),
      translate = (\<lambda>h. Inr ''  ''),
      createEmptyContentWarning = (\<lambda>u n h. ''Content Warning: empty after conversion'')\<rparr>"

section \<open>Auxiliary facts\<close>

subsection \<open>Heading lines\<close>

lemma hash_not_space: "\<not> isWhiteSpace (CHR ''#'')"
  by (simp add: isWhiteSpace_def)

lemma takeWhile_eq_replicate:
  "takeWhile (\<lambda>c. c = x) l = replicate (length (takeWhile (\<lambda>c. c = x) l)) x"
  by (induction l) auto

lemma hashRun_take: "take (hashRun l) l = replicate (hashRun l) (CHR ''#'')"
  unfolding hashRun_def
  by (metis takeWhile_eq_replicate takeWhile_eq_take)

lemma hashRun_unique:
  assumes "n < length l" "take n l = replicate n (CHR ''#'')" "l ! n \<noteq> CHR ''#''"
  shows "hashRun l = n"
proof -
  have "takeWhile (\<lambda>c. c = CHR ''#'') l = take n l"
  proof (rule takeWhile_eq_take_P_nth)
    fix i assume "i < n" "i < length l"
    then have "l ! i = take n l ! i" by simp
    also have "\<dots> = CHR ''#''" using \<open>i < n\<close> assms(2) by simp
    finally show "l ! i = CHR ''#''" .
  next
    show "l ! n \<noteq> CHR ''#''" by (rule assms(3))
  qed
  then show ?thesis using assms(1) by (simp add: hashRun_def)
qed

lemma isHeadingLine_spec: "isHeadingLine l = headingLine_spec l"
proof
  assume "isHeadingLine l"
  then show "headingLine_spec l"
    unfolding isHeadingLine_def headingLine_spec_def Let_def
    using hashRun_take [of l] by auto
next
  assume "headingLine_spec l"
  then obtain n where n: "1 \<le> n" "n \<le> 6" "n < length l" "take n l = replicate n (CHR ''#'')"
      "isWhiteSpace (l ! n)"
    unfolding headingLine_spec_def by auto
  then have "l ! n \<noteq> CHR ''#''" using hash_not_space by metis
  then have "hashRun l = n" using n hashRun_unique by blast
  then show "isHeadingLine l" using n by (simp add: isHeadingLine_def)
qed

lemma extractHeadings_spec:
  "extractHeadings text =
     (let hs = filter headingLine_spec (js_split [newline] text)
      in if hs = [] then ''No headings found in the content.'' else js_join [newline] hs)"
proof -
  have "filter isHeadingLine = filter headingLine_spec"
    by (rule ext) (simp add: isHeadingLine_spec cong: filter_cong)
  then show ?thesis
    by (simp add: extractHeadings_def Let_def)
qed

subsection \<open>The two loops of section extraction\<close>

lemma js_slice_list_nat:
  "a \<le> length xs \<Longrightarrow> js_slice_list xs (int a) (int b) = take (b - a) (drop a xs)"
  by (auto simp: js_slice_list_def Let_def min_def nat_diff_distrib')

lemma findSectionStart_dropWhile:
  "i \<le> length lines \<Longrightarrow>
   findSectionStart re lines i =
     (case dropWhile (\<lambda>l. \<not> regex_test re l) (drop i lines) of
        [] \<Rightarrow> None
      | h # rest \<Rightarrow>
          Some (i + length (takeWhile (\<lambda>l. \<not> regex_test re l) (drop i lines)), hashRun h))"
proof (induction re lines i rule: findSectionStart.induct)
  case (1 re lines i)
  show ?case
  proof (cases "i < length lines")
    case True
    then have d: "drop i lines = lines ! i # drop (Suc i) lines"
      by (simp add: Cons_nth_drop_Suc)
    show ?thesis
    proof (cases "regex_test re (lines ! i)")
      case True
      with \<open>i < length lines\<close> d show ?thesis
        by (subst findSectionStart.simps) simp
    next
      case False
      with \<open>i < length lines\<close> d "1.IH" show ?thesis
        by (subst findSectionStart.simps)
           (cases "dropWhile (\<lambda>l. \<not> regex_test re l) (drop (Suc i) lines)";
            simp del: dropWhile_eq_Nil_conv)
    qed
  next
    case False
    with "1.prems" show ?thesis
      by (subst findSectionStart.simps) simp
  qed
qed

lemma findSectionEnd_takeWhile:
  "i \<le> length lines \<Longrightarrow>
   findSectionEnd L lines i =
     i + length (takeWhile (\<lambda>l. \<not> (0 < hashRun l \<and> hashRun l \<le> L)) (drop i lines))"
proof (induction L lines i rule: findSectionEnd.induct)
  case (1 L lines i)
  show ?case
  proof (cases "i < length lines")
    case True
    then have d: "drop i lines = lines ! i # drop (Suc i) lines"
      by (simp add: Cons_nth_drop_Suc)
    show ?thesis
    proof (cases "0 < hashRun (lines ! i) \<and> hashRun (lines ! i) \<le> L")
      case True
      with \<open>i < length lines\<close> d show ?thesis
        by (subst findSectionEnd.simps) simp
    next
      case False
      with \<open>i < length lines\<close> d "1.IH" show ?thesis
        by (subst findSectionEnd.simps) auto
    qed
  next
    case False
    with "1.prems" show ?thesis
      by (subst findSectionEnd.simps) simp
  qed
qed

lemma extractSection_structure:
  assumes "RegExp_i (sectionPattern heading) = Some (Inr re)"
  shows "extractSection text heading =
     Some (Inr (case dropWhile (\<lambda>l. \<not> regex_test re l) (js_split [newline] text) of
                  [] \<Rightarrow> []
                | h # rest \<Rightarrow>
                    js_join [newline]
                      (h # takeWhile (\<lambda>l. \<not> (0 < hashRun l \<and> hashRun l \<le> hashRun h)) rest)))"
proof -
  define lines where "lines = js_split [newline] text"
  define pre where "pre = takeWhile (\<lambda>l. \<not> regex_test re l) lines"
  show ?thesis
  proof (cases "dropWhile (\<lambda>l. \<not> regex_test re l) lines")
    case Nil
    then show ?thesis
      using assms findSectionStart_dropWhile [of 0 lines re]
      by (simp add: extractSection_def lines_def [symmetric] del: dropWhile_eq_Nil_conv)
  next
    case (Cons h rest)
    then have lines: "lines = pre @ h # rest"
      unfolding pre_def by (metis takeWhile_dropWhile_id)
    define body where "body = takeWhile (\<lambda>l. \<not> (0 < hashRun l \<and> hashRun l \<le> hashRun h)) rest"
    have start: "findSectionStart re lines 0 = Some (length pre, hashRun h)"
      using findSectionStart_dropWhile [of 0 lines re] Cons by (simp add: pre_def)
    have "findSectionEnd (hashRun h) lines (length pre + 1) =
            length pre + 1 + length body"
      using findSectionEnd_takeWhile [of "length pre + 1" lines "hashRun h"] lines
      by (simp add: body_def)
    moreover have "js_slice_list lines (int (length pre)) (int (length pre + 1 + length body))
                     = h # body"
    proof -
      have "take (length body) rest = body"
        unfolding body_def by (metis takeWhile_eq_take)
      then show ?thesis
        using js_slice_list_nat [of "length pre" lines "length pre + 1 + length body"] lines
        by simp
    qed
    ultimately show ?thesis
      using assms start Cons
      by (simp add: extractSection_def lines_def [symmetric] body_def)
  qed
qed

subsection \<open>Range strings\<close>

lemma not_digit_minus: "\<not> isDigit (CHR ''-'')"
  by (simp add: isDigit_def)

lemma matchRange_single:
  "ds \<noteq> [] \<Longrightarrow> list_all isDigit ds \<Longrightarrow> matchRange ds = Some (ds, None)"
  by (simp add: matchRange_def list_all_iff takeWhile_eq_all_conv [THEN iffD2]
      dropWhile_eq_Nil_conv [THEN iffD2])

lemma matchRange_range:
  assumes "ds \<noteq> []" "list_all isDigit ds" "list_all isDigit es"
  shows "matchRange (ds @ ''-'' @ es) = Some (ds, Some es)"
proof -
  have "takeWhile isDigit (ds @ ''-'' @ es) = ds"
    using assms(2) not_digit_minus by (simp add: list_all_iff takeWhile_append2 takeWhile_tail)
  moreover have "dropWhile isDigit (ds @ ''-'' @ es) = ''-'' @ es"
    using assms(2) not_digit_minus by (simp add: list_all_iff dropWhile_append2)
  ultimately show ?thesis using assms by (simp add: matchRange_def)
qed


subsection \<open>The character window away from a zero \<open>maxLength\<close>\<close>

lemma applyCharacterPagination_window:
  assumes "m \<noteq> Some 0" and "\<forall>k. m = Some k \<longrightarrow> 0 \<le> k"
  shows "applyCharacterPagination content (Some s) m =
     (if s \<ge> int (length content) then []
      else case m of
             None \<Rightarrow> drop (nat (max 0 s)) content
           | Some k \<Rightarrow>
               take (nat (min (int (length content)) (max 0 s + k) - max 0 s))
                 (drop (nat (max 0 s)) content))"
  using assms
  by (auto simp: applyCharacterPagination_def js_slice_list_def Let_def min_def max_def
      split: option.splits)

subsection \<open>The pipeline and the cache\<close>

lemma fetch_failure_is_NetworkError:
  assumes "fst (SimpleCache_get (now_get w) url c) = None" "newURL w url"
    "createProxyAgent w url = Inr p" "fetch w url = Inl e"
  shows "fst (fetchAndConvertToMarkdown w url t opts c) = Some (Inl (MCPSearXNGError NetworkError))"
  using assms
  by (auto simp: fetchAndConvertToMarkdown_def tryBlock_def catchBlock_def createNetworkError_def
      split: prod.splits option.splits)

lemma nonblank_get: "nonblankEntries c \<Longrightarrow> nonblankEntries (snd (SimpleCache_get now url c))"
  by (auto simp: nonblankEntries_def SimpleCache_get_def split: option.splits if_splits)

lemma nonblank_tryBlock: "nonblankEntries c \<Longrightarrow> nonblankEntries (snd (tryBlock w url t opts c))"
  by (auto simp: nonblankEntries_def tryBlock_def SimpleCache_set_def Let_def
      split: sum.splits if_splits)

lemma nonblank_pipeline:
  assumes "nonblankEntries c"
  shows "nonblankEntries (snd (fetchAndConvertToMarkdown w url t opts c))"
proof -
  obtain r c1 where g: "SimpleCache_get (now_get w) url c = (r, c1)" by fastforce
  then have c1: "nonblankEntries c1" using nonblank_get [OF assms, of "now_get w" url] by simp
  then have "nonblankEntries (snd (tryBlock w url t opts c1))" by (rule nonblank_tryBlock)
  then show ?thesis using g c1
    by (auto simp: fetchAndConvertToMarkdown_def split: option.splits sum.splits prod.splits)
qed

subsection \<open>Splitting and joining\<close>

lemma js_split_nonempty: "sep \<noteq> [] \<Longrightarrow> js_split sep s \<noteq> []"
  by (subst js_split.simps) (simp split: list.splits)

lemma js_join_Cons_Cons: "js_join sep ((c # l) # ls) = c # js_join sep (l # ls)"
  by (cases ls) simp_all

lemma js_join_Nil_Cons: "rest \<noteq> [] \<Longrightarrow> js_join sep ([] # rest) = sep @ js_join sep rest"
  by (cases rest) simp_all

lemma js_join_split: "sep \<noteq> [] \<Longrightarrow> js_join sep (js_split sep s) = s"
proof (induction sep s rule: js_split.induct)
  case (1 sep s)
  show ?case
  proof (cases "s = []")
    case True
    with "1.prems" show ?thesis by (subst js_split.simps) simp
  next
    case ne: False
    show ?thesis
    proof (cases "take (length sep) s = sep")
      case True
      then have "js_split sep s = [] # js_split sep (drop (length sep) s)"
        using ne "1.prems" by (subst js_split.simps) simp
      moreover have "js_join sep (js_split sep (drop (length sep) s)) = drop (length sep) s"
        using "1.IH"(1) "1.prems" ne True by simp
      ultimately have "js_join sep (js_split sep s) = sep @ drop (length sep) s"
        using js_join_Nil_Cons [OF js_split_nonempty [OF "1.prems"]] by simp
      also have "\<dots> = s"
        using True by (metis append_take_drop_id)
      finally show ?thesis .
    next
      case False
      have ih: "js_join sep (js_split sep (tl s)) = tl s"
        using "1.IH"(2) "1.prems" ne False by simp
      obtain l ls where l: "js_split sep (tl s) = l # ls"
        using js_split_nonempty [OF "1.prems", of "tl s"] by (cases "js_split sep (tl s)") auto
      then have "js_split sep s = (hd s # l) # ls"
        using ne False "1.prems" by (subst js_split.simps) simp
      then have "js_join sep (js_split sep s) = hd s # js_join sep (l # ls)"
        by (simp add: js_join_Cons_Cons)
      also have "\<dots> = hd s # tl s" using ih l by simp
      also have "\<dots> = s" using ne by simp
      finally show ?thesis .
    qed
  qed
qed

subsection \<open>The pattern of a plain heading and the lines it matches\<close>

lemma of_char_canonicalize:
  "(of_char (canonicalize c) :: nat) =
     (let n = of_char c
      in if (97 \<le> n \<and> n \<le> 122) \<or> (224 \<le> n \<and> n \<le> 254 \<and> n \<noteq> 247) then n - 32 else n)"
  by (auto simp: canonicalize_def Let_def)

lemma canon_eq_iff:
  "canonicalize c = canonicalize d \<longleftrightarrow>
     (of_char (canonicalize c) :: nat) = of_char (canonicalize d)"
  by simp

lemma char_eq_iff_code: "c = d \<longleftrightarrow> (of_char c :: nat) = of_char d"
  by simp

lemma canon_hash: "canonicalize (CHR ''#'') = canonicalize c \<longleftrightarrow> c = CHR ''#''"
  unfolding canon_eq_iff of_char_canonicalize char_eq_iff_code [of c]
  by (auto simp: Let_def)

lemma canon_s_not_lt: "canonicalize (CHR ''s'') = canonicalize c \<Longrightarrow> \<not> isLineTerminator c"
  unfolding canon_eq_iff of_char_canonicalize isLineTerminator_def
  by (auto simp: Let_def split: if_splits)

lemma tokenize_plain:
  "\<forall>c \<in> set h. plainChar c \<Longrightarrow> tokenize (h @ rest) = map (\<lambda>c. TAtom (Lit c)) h @ tokenize rest"
  by (induction h) (auto simp: plainChar_def backslash_def)

lemma tokenize_sectionPattern:
  assumes "\<forall>c \<in> set h. plainChar c"
  shows "tokenize (sectionPattern h) =
     [TBol, TAtom (Lit (CHR ''#'')), TQuant 1 (Some 6), TAtom (Lit (CHR ''s'')), TQuant 0 None,
      TAtom AnyChar, TQuant 0 None] @ map (\<lambda>c. TAtom (Lit c)) h @
     [TAtom AnyChar, TQuant 0 None, TEol]"
proof -
  have skip: "skipLazy (h @ ''.*$'') = h @ ''.*$''"
    using assms by (cases h) (auto simp: skipLazy_def plainChar_def)
  have tail: "tokenize (h @ ''.*$'') = map (\<lambda>c. TAtom (Lit c)) h @ [TAtom AnyChar, TQuant 0 None, TEol]"
    using tokenize_plain [OF assms, of "''.*$''"] by (simp add: backslash_def skipLazy_def)
  have brace: "braceQuantifier (''1,6}s*.*'' @ h @ ''.*$'') = Some ((1, Some 6), 4)"
    by (simp add: braceQuantifier_def isDigit_def parseInt_def)
  show ?thesis
    using skip tail brace
    by (simp add: sectionPattern_def backslash_def skipLazy_def)
qed

lemma parseTokens_atoms:
  "parseTokens (map (\<lambda>c. TAtom (Lit c)) h @ TAtom a # ts) (alts, terms, q) stack =
   parseTokens ts (alts, Atm a # rev (map (\<lambda>c. Atm (Lit c)) h) @ terms, True) stack"
  by (induction h arbitrary: terms q) auto

lemma seqOf_rev: "seqOf (rev xs) = foldr Seq xs Eps"
  by (simp add: seqOf_def foldl_conv_foldr)

lemma RegExp_i_plain:
  assumes "\<forall>c \<in> set h. plainChar c"
  shows "RegExp_i (sectionPattern h) = Some (Inr (sectionRegex h))"
proof -
  have "RegExp_i (sectionPattern h) =
          Some (Inr (seqOf (rev ([Bol, Rep 1 (Some 6) (Atm (Lit (CHR ''#''))),
              Rep 0 None (Atm (Lit (CHR ''s''))), Rep 0 None (Atm AnyChar)] @
              map (\<lambda>c. Atm (Lit c)) h @ [Rep 0 None (Atm AnyChar), Eol]))))"
    unfolding RegExp_i_def tokenize_sectionPattern [OF assms]
    by (simp add: parseTokens_atoms closeFrame_def)
  then show ?thesis
    unfolding seqOf_rev sectionRegex_def .
qed

lemma runOf_refl: "runOf a s i i"
  by (auto simp: runOf_def)

lemma runOf_Suc:
  "p < j \<Longrightarrow> runOf a s p j \<longleftrightarrow> (p < length s \<and> atomMatches a (s ! p) \<and> runOf a s (Suc p) j)"
  unfolding runOf_def
  by (metis Suc_leD Suc_le_eq le_eq_less_or_eq)

lemma set_ends_Seq: "set (ends s (Seq a b) i) = (\<Union>j \<in> set (ends s a i). set (ends s b j))"
  by simp

lemma set_iterOpt_atom:
  "set (iterOpt (ends s (Atm a)) n ps) =
     {j. \<exists>p \<in> set ps. p \<le> j \<and> j \<le> p + n \<and> runOf a s p j}"
proof (induction n arbitrary: ps)
  case 0
  then show ?case by (auto simp: runOf_refl)
next
  case (Suc n)
  define ps' where
    "ps' = remdups (concat (map (\<lambda>i. filter (\<lambda>j. i < j) (ends s (Atm a) i)) ps))"
  have ps': "set ps' = {Suc p | p. p \<in> set ps \<and> p < length s \<and> atomMatches a (s ! p)}"
    unfolding ps'_def by auto
  show ?case
  proof (cases "ps = []")
    case True
    then show ?thesis by simp
  next
    case False
    have "set (iterOpt (ends s (Atm a)) (Suc n) ps) =
            set ps \<union> {j. \<exists>p \<in> set ps'. p \<le> j \<and> j \<le> p + n \<and> runOf a s p j}"
      using False Suc.IH [of ps'] by (simp add: ps'_def)
    also have "\<dots> = {j. \<exists>p \<in> set ps. p \<le> j \<and> j \<le> p + Suc n \<and> runOf a s p j}"
    proof (intro equalityI subsetI)
      fix j
      assume "j \<in> set ps \<union> {j. \<exists>p \<in> set ps'. p \<le> j \<and> j \<le> p + n \<and> runOf a s p j}"
      then consider "j \<in> set ps"
        | p where "p \<in> set ps" "p < length s" "atomMatches a (s ! p)" "Suc p \<le> j"
            "j \<le> Suc p + n" "runOf a s (Suc p) j"
        using ps' by auto
      then show "j \<in> {j. \<exists>p \<in> set ps. p \<le> j \<and> j \<le> p + Suc n \<and> runOf a s p j}"
      proof cases
        case 1
        then show ?thesis using runOf_refl by auto
      next
        case 2
        then have "runOf a s p j" using runOf_Suc [of p j a s] by simp
        with 2 show ?thesis by (intro CollectI bexI [of _ p]) auto
      qed
    next
      fix j
      assume "j \<in> {j. \<exists>p \<in> set ps. p \<le> j \<and> j \<le> p + Suc n \<and> runOf a s p j}"
      then obtain p where p: "p \<in> set ps" "p \<le> j" "j \<le> p + Suc n" "runOf a s p j"
        by auto
      show "j \<in> set ps \<union> {j. \<exists>p \<in> set ps'. p \<le> j \<and> j \<le> p + n \<and> runOf a s p j}"
      proof (cases "p = j")
        case True
        with p show ?thesis by simp
      next
        case False
        with p have lt: "p < j" by simp
        then have "p < length s \<and> atomMatches a (s ! p) \<and> runOf a s (Suc p) j"
          using p(4) runOf_Suc [of p j a s] by simp
        then have "Suc p \<in> set ps'" "runOf a s (Suc p) j"
          using ps' p(1) by auto
        moreover have "Suc p \<le> j" "j \<le> Suc p + n"
          using lt p(3) by simp_all
        ultimately show ?thesis by blast
      qed
    qed
    finally show ?thesis .
  qed
qed

lemma set_ends_star:
  "set (ends s (Rep 0 None (Atm a)) i) = {j. i \<le> j \<and> j \<le> i + length s \<and> runOf a s i j}"
  using set_iterOpt_atom [of s a "length s" "[i]"] by simp

lemma set_ends_rep1:
  "set (ends s (Rep 1 (Some (Suc m)) (Atm a)) i) = {j. i < j \<and> j \<le> Suc i + m \<and> runOf a s i j}"
proof -
  have "set (ends s (Rep 1 (Some (Suc m)) (Atm a)) i) =
          {j. \<exists>p \<in> set (ends s (Atm a) i). p \<le> j \<and> j \<le> p + m \<and> runOf a s p j}"
    using set_iterOpt_atom [of s a m "remdups (ends s (Atm a) i)"] by simp
  also have "\<dots> = {j. i < j \<and> j \<le> Suc i + m \<and> runOf a s i j}"
    using runOf_Suc [of i _ a s] by (auto simp: Suc_le_eq)
  finally show ?thesis .
qed

lemma set_ends_lits:
  "i \<le> length s \<Longrightarrow>
   set (ends s (foldr Seq (map (\<lambda>c. Atm (Lit c)) h) K) i) =
     (if i + length h \<le> length s \<and>
         map canonicalize (take (length h) (drop i s)) = map canonicalize h
      then set (ends s K (i + length h)) else {})"
proof (induction h arbitrary: i)
  case Nil
  then show ?case by simp
next
  case (Cons c h)
  show ?case
  proof (cases "i < length s")
    case True
    then have d: "drop i s = s ! i # drop (Suc i) s"
      by (simp add: Cons_nth_drop_Suc)
    show ?thesis
      using True Cons.IH [of "Suc i"] by (auto simp: d atomMatches_def)
  next
    case False
    then show ?thesis using Cons.prems by simp
  qed
qed

lemma runOf_le:
  assumes "runOf a s i j" and "i \<le> length s"
  shows "j \<le> length s"
proof (cases "j \<le> i")
  case True
  with assms(2) show ?thesis by simp
next
  case False
  then have "i \<le> j - 1 \<and> j - 1 < j" by simp
  with assms(1) have "j - 1 < length s"
    unfolding runOf_def by blast
  then show ?thesis by simp
qed

lemma runOf_trans:
  assumes "runOf a s i j" and "runOf a s j k"
  shows "runOf a s i k"
  unfolding runOf_def
proof (intro allI impI)
  fix m
  assume m: "i \<le> m \<and> m < k"
  show "m < length s \<and> atomMatches a (s ! m)"
  proof (cases "m < j")
    case True
    with m assms(1) show ?thesis unfolding runOf_def by blast
  next
    case False
    then have "j \<le> m" by simp
    with m assms(2) show ?thesis unfolding runOf_def by blast
  qed
qed

lemma runOf_s_any:
  assumes "runOf (Lit (CHR ''s'')) s i j"
  shows "runOf AnyChar s i j"
  unfolding runOf_def
proof (intro allI impI)
  fix k
  assume "i \<le> k \<and> k < j"
  with assms have "k < length s" "atomMatches (Lit (CHR ''s'')) (s ! k)"
    unfolding runOf_def by blast+
  then show "k < length s \<and> atomMatches AnyChar (s ! k)"
    using canon_s_not_lt [of "s ! k"] by (simp add: atomMatches_def)
qed

lemma runOf_any:
  "j \<le> length s \<Longrightarrow>
   runOf AnyChar s i j \<longleftrightarrow> (\<forall>k \<in> {i..<j}. \<not> isLineTerminator (s ! k))"
  unfolding runOf_def by (auto simp: atomMatches_def)

lemma runOf_hash:
  "runOf (Lit (CHR ''#'')) s 0 n \<longleftrightarrow> n \<le> length s \<and> take n s = replicate n (CHR ''#'')"
proof
  assume r: "runOf (Lit (CHR ''#'')) s 0 n"
  then have n: "n \<le> length s" using runOf_le [of _ s 0 n] by simp
  have "s ! k = CHR ''#''" if "k < n" for k
  proof -
    from r that have "atomMatches (Lit (CHR ''#'')) (s ! k)"
      unfolding runOf_def by simp
    then show ?thesis using canon_hash [of "s ! k"] by (simp add: atomMatches_def)
  qed
  then have "take n s = replicate n (CHR ''#'')"
    using n by (simp add: list_eq_iff_nth_eq)
  with n show "n \<le> length s \<and> take n s = replicate n (CHR ''#'')" by simp
next
  assume a: "n \<le> length s \<and> take n s = replicate n (CHR ''#'')"
  have "s ! k = CHR ''#''" if "k < n" for k
  proof -
    have "s ! k = take n s ! k" using that by simp
    also have "\<dots> = CHR ''#''" using a that by simp
    finally show ?thesis .
  qed
  then show "runOf (Lit (CHR ''#'')) s 0 n"
    using a unfolding runOf_def by (simp add: atomMatches_def)
qed

lemma mem_star:
  assumes "i \<le> length s"
  shows "j \<in> set (ends s (Rep 0 None (Atm a)) i) \<longleftrightarrow> i \<le> j \<and> j \<le> length s \<and> runOf a s i j"
proof -
  have "j \<in> set (ends s (Rep 0 None (Atm a)) i) \<longleftrightarrow>
          i \<le> j \<and> j \<le> i + length s \<and> runOf a s i j"
    unfolding set_ends_star by simp
  moreover have "runOf a s i j \<Longrightarrow> j \<le> length s"
    using runOf_le [of a s i j] assms by simp
  ultimately show ?thesis by auto
qed

lemma mem_rep6:
  "j \<in> set (ends s (Rep 1 (Some 6) (Atm a)) i) \<longleftrightarrow> i < j \<and> j \<le> i + 6 \<and> runOf a s i j"
proof -
  have six: "Some (6::nat) = Some (Suc 5)" by simp
  show ?thesis
    unfolding six set_ends_rep1 by auto
qed

lemma regex_test_iff: "regex_test re s \<longleftrightarrow> (\<exists>i \<le> length s. set (ends s re i) \<noteq> {})"
proof -
  have "set [0..<Suc (length s)] = {i. i \<le> length s}"
    by (auto simp del: upt_Suc)
  then show ?thesis
    unfolding regex_test_def list_ex_iff by (simp del: upt_Suc)
qed

lemma set_ends_tail:
  "i \<le> length s \<Longrightarrow>
   set (ends s (Seq (Rep 0 None (Atm AnyChar)) (Seq Eol Eps)) i) =
     (if runOf AnyChar s i (length s) then {length s} else {})"
proof -
  assume i: "i \<le> length s"
  have e: "set (ends s (Seq Eol Eps) j) = (if j = length s then {j} else {})" for j
    by simp
  have "set (ends s (Seq (Rep 0 None (Atm AnyChar)) (Seq Eol Eps)) i) =
          (\<Union>j \<in> set (ends s (Rep 0 None (Atm AnyChar)) i). set (ends s (Seq Eol Eps) j))"
    by (rule set_ends_Seq)
  also have "\<dots> = (if runOf AnyChar s i (length s) then {length s} else {})"
    unfolding e using mem_star [OF i, of _ AnyChar] i by (auto simp del: ends.simps)
  finally show ?thesis .
qed

lemma sectionRegex_unfold:
  "sectionRegex h =
     Seq Bol
      (Seq (Rep 1 (Some 6) (Atm (Lit (CHR ''#''))))
        (Seq (Rep 0 None (Atm (Lit (CHR ''s''))))
          (Seq (Rep 0 None (Atm AnyChar))
            (foldr Seq (map (\<lambda>c. Atm (Lit c)) h)
               (Seq (Rep 0 None (Atm AnyChar)) (Seq Eol Eps))))))"
  by (simp add: sectionRegex_def)

lemma sectionRegex_nonempty:
  "set (ends s (sectionRegex h) i) \<noteq> {} \<longleftrightarrow>
     i = 0 \<and>
     (\<exists>n j1 j2. 0 < n \<and> n \<le> 6 \<and> runOf (Lit (CHR ''#'')) s 0 n \<and>
        n \<le> j1 \<and> runOf (Lit (CHR ''s'')) s n j1 \<and>
        j1 \<le> j2 \<and> runOf AnyChar s j1 j2 \<and>
        j2 + length h \<le> length s \<and>
        map canonicalize (take (length h) (drop j2 s)) = map canonicalize h \<and>
        runOf AnyChar s (j2 + length h) (length s))"
  (is "?L \<longleftrightarrow> ?R")
proof
  assume ?L
  then obtain x where x: "x \<in> set (ends s (sectionRegex h) i)"
    by (meson all_not_in_conv)
  let ?K = "Seq (Rep 0 None (Atm AnyChar)) (Seq Eol Eps)"
  let ?lits = "foldr Seq (map (\<lambda>c. Atm (Lit c)) h) ?K"
  from x obtain b where b: "b \<in> set (ends s Bol i)"
      and x1: "x \<in> set (ends s (Seq (Rep 1 (Some 6) (Atm (Lit (CHR ''#''))))
        (Seq (Rep 0 None (Atm (Lit (CHR ''s''))))
          (Seq (Rep 0 None (Atm AnyChar)) ?lits))) b)"
    unfolding sectionRegex_unfold set_ends_Seq [of s Bol] by blast
  from b have i0: "i = 0" "b = 0" by (auto split: if_splits)
  from x1 obtain n where n: "n \<in> set (ends s (Rep 1 (Some 6) (Atm (Lit (CHR ''#'')))) 0)"
      and x2: "x \<in> set (ends s (Seq (Rep 0 None (Atm (Lit (CHR ''s''))))
          (Seq (Rep 0 None (Atm AnyChar)) ?lits)) n)"
    unfolding i0 set_ends_Seq [of s "Rep 1 (Some 6) (Atm (Lit (CHR ''#'')))"] by blast
  from n have n': "0 < n" "n \<le> 6" "runOf (Lit (CHR ''#'')) s 0 n"
    unfolding mem_rep6 by simp_all
  then have nlen: "n \<le> length s" using runOf_le [of _ s 0 n] by simp
  from x2 obtain j1 where j1: "j1 \<in> set (ends s (Rep 0 None (Atm (Lit (CHR ''s'')))) n)"
      and x3: "x \<in> set (ends s (Seq (Rep 0 None (Atm AnyChar)) ?lits) j1)"
    unfolding set_ends_Seq [of s "Rep 0 None (Atm (Lit (CHR ''s'')))"] by blast
  from j1 have j1': "n \<le> j1" "j1 \<le> length s" "runOf (Lit (CHR ''s'')) s n j1"
    unfolding mem_star [OF nlen] by simp_all
  from x3 obtain j2 where j2: "j2 \<in> set (ends s (Rep 0 None (Atm AnyChar)) j1)"
      and x4: "x \<in> set (ends s ?lits j2)"
    unfolding set_ends_Seq [of s "Rep 0 None (Atm AnyChar)"] by blast
  from j2 have j2': "j1 \<le> j2" "j2 \<le> length s" "runOf AnyChar s j1 j2"
    unfolding mem_star [OF j1'(2)] by simp_all
  from x4 have lit: "j2 + length h \<le> length s"
      "map canonicalize (take (length h) (drop j2 s)) = map canonicalize h"
      and x5: "x \<in> set (ends s ?K (j2 + length h))"
    unfolding set_ends_lits [OF j2'(2)] by (auto split: if_splits)
  from x5 have "runOf AnyChar s (j2 + length h) (length s)"
    unfolding set_ends_tail [OF lit(1)] by (auto split: if_splits)
  with i0 n' j1' j2' lit show ?R by blast
next
  assume ?R
  then obtain n j1 j2 where i0: "i = 0"
    and n: "0 < n" "n \<le> 6" "runOf (Lit (CHR ''#'')) s 0 n"
    and j1: "n \<le> j1" "runOf (Lit (CHR ''s'')) s n j1"
    and j2: "j1 \<le> j2" "runOf AnyChar s j1 j2"
    and lit: "j2 + length h \<le> length s"
      "map canonicalize (take (length h) (drop j2 s)) = map canonicalize h"
    and tl: "runOf AnyChar s (j2 + length h) (length s)"
    by blast
  let ?K = "Seq (Rep 0 None (Atm AnyChar)) (Seq Eol Eps)"
  let ?lits = "foldr Seq (map (\<lambda>c. Atm (Lit c)) h) ?K"
  have nlen: "n \<le> length s" using n(3) runOf_le [of _ s 0 n] by simp
  have j2len: "j2 \<le> length s" using lit(1) by simp
  have j1len: "j1 \<le> length s" using j2(1) j2len by simp
  have "length s \<in> set (ends s ?K (j2 + length h))"
    unfolding set_ends_tail [OF lit(1)] using tl by simp
  then have "length s \<in> set (ends s ?lits j2)"
    unfolding set_ends_lits [OF j2len] using lit by simp
  moreover have "j2 \<in> set (ends s (Rep 0 None (Atm AnyChar)) j1)"
    unfolding mem_star [OF j1len] using j2 j2len by simp
  ultimately have "length s \<in> set (ends s (Seq (Rep 0 None (Atm AnyChar)) ?lits) j1)"
    unfolding set_ends_Seq [of s "Rep 0 None (Atm AnyChar)"] by blast
  moreover have "j1 \<in> set (ends s (Rep 0 None (Atm (Lit (CHR ''s'')))) n)"
    unfolding mem_star [OF nlen] using j1 j1len by simp
  ultimately have "length s \<in> set (ends s (Seq (Rep 0 None (Atm (Lit (CHR ''s''))))
          (Seq (Rep 0 None (Atm AnyChar)) ?lits)) n)"
    unfolding set_ends_Seq [of s "Rep 0 None (Atm (Lit (CHR ''s'')))"] by blast
  moreover have "n \<in> set (ends s (Rep 1 (Some 6) (Atm (Lit (CHR ''#'')))) 0)"
    unfolding mem_rep6 using n by simp
  ultimately have "length s \<in> set (ends s (Seq (Rep 1 (Some 6) (Atm (Lit (CHR ''#''))))
        (Seq (Rep 0 None (Atm (Lit (CHR ''s''))))
          (Seq (Rep 0 None (Atm AnyChar)) ?lits))) 0)"
    unfolding set_ends_Seq [of s "Rep 1 (Some 6) (Atm (Lit (CHR ''#'')))"] by blast
  moreover have "0 \<in> set (ends s Bol 0)" by simp
  ultimately have "length s \<in> set (ends s (sectionRegex h) 0)"
    unfolding sectionRegex_unfold set_ends_Seq [of s Bol] by blast
  then show ?L using i0 by auto
qed

lemma regex_test_sectionRegex: "regex_test (sectionRegex h) s \<longleftrightarrow> sectionStart_spec h s"
proof
  assume "regex_test (sectionRegex h) s"
  then obtain n j1 j2 where
        n: "0 < n" "n \<le> 6" "runOf (Lit (CHR ''#'')) s 0 n"
    and j1: "n \<le> j1" "runOf (Lit (CHR ''s'')) s n j1"
    and j2: "j1 \<le> j2" "runOf AnyChar s j1 j2"
    and lit: "j2 + length h \<le> length s"
      "map canonicalize (take (length h) (drop j2 s)) = map canonicalize h"
    and tl: "runOf AnyChar s (j2 + length h) (length s)"
    unfolding regex_test_iff sectionRegex_nonempty by blast
  have j2len: "j2 \<le> length s" using lit(1) by simp
  have "runOf AnyChar s n j2"
    using runOf_trans [OF runOf_s_any [OF j1(2)] j2(2)] .
  then have mid: "\<forall>k \<in> {n..<j2}. \<not> isLineTerminator (s ! k)"
    using runOf_any [OF j2len] by simp
  have post: "\<forall>k \<in> {j2 + length h..<length s}. \<not> isLineTerminator (s ! k)"
    using tl runOf_any [of "length s" s] by simp
  have "take n s = replicate n (CHR ''#'')"
    using n(3) runOf_hash by simp
  moreover have "n \<in> {1..6}" using n by simp
  moreover have "j2 \<in> {n..length s}" using j1(1) j2(1) j2len by simp
  ultimately show "sectionStart_spec h s"
    unfolding sectionStart_spec_def using mid post lit by blast
next
  assume "sectionStart_spec h s"
  then obtain n j where n: "n \<in> {1..6}" and j: "j \<in> {n..length s}"
    and hashes: "take n s = replicate n (CHR ''#'')"
    and mid: "\<forall>k \<in> {n..<j}. \<not> isLineTerminator (s ! k)"
    and lit: "j + length h \<le> length s"
      "map canonicalize (take (length h) (drop j s)) = map canonicalize h"
    and post: "\<forall>k \<in> {j + length h..<length s}. \<not> isLineTerminator (s ! k)"
    unfolding sectionStart_spec_def by blast
  have nlen: "n \<le> length s" using j by simp
  have "runOf (Lit (CHR ''#'')) s 0 n"
    using runOf_hash hashes nlen by simp
  moreover have "runOf (Lit (CHR ''s'')) s n n"
    by (rule runOf_refl)
  moreover have "runOf AnyChar s n j"
    using mid runOf_any [of j s n] j by simp
  moreover have "runOf AnyChar s (j + length h) (length s)"
    using post runOf_any [of "length s" s] by simp
  ultimately have "set (ends s (sectionRegex h) 0) \<noteq> {}"
    unfolding sectionRegex_nonempty using n j lit
    by (intro conjI exI [of _ n] exI [of _ j]) auto
  then show "regex_test (sectionRegex h) s"
    unfolding regex_test_iff by blast
qed

subsection \<open>Where extraction is total\<close>

lemma extractSection_plain:
  assumes "\<forall>c \<in> set heading. plainChar c"
  shows "extractSection text heading =
     Some (Inr (case dropWhile (\<lambda>l. \<not> sectionStart_spec heading l) (js_split [newline] text) of
                  [] \<Rightarrow> []
                | h # rest \<Rightarrow>
                    js_join [newline]
                      (h # takeWhile (\<lambda>l. \<not> (0 < hashRun l \<and> hashRun l \<le> hashRun h)) rest)))"
  using extractSection_structure [OF RegExp_i_plain [OF assms]]
  by (simp only: regex_test_sectionRegex)

lemma applyPaginationOptions_returns:
  assumes "readHeadings opts = Some True \<or> section' opts = None \<or>
           (\<exists>s. section' opts = Some s \<and> (\<forall>c \<in> set s. plainChar c))"
  shows "\<exists>r. applyPaginationOptions text opts = Some (Inr r)"
proof (cases "readHeadings opts = Some True")
  case True
  then show ?thesis by (simp add: applyPaginationOptions_def)
next
  case False
  show ?thesis
  proof (cases "section' opts")
    case None
    with False show ?thesis by (simp add: applyPaginationOptions_def)
  next
    case (Some s)
    with assms False have "\<forall>c \<in> set s. plainChar c" by simp
    then obtain r where "extractSection text s = Some (Inr r)"
      using extractSection_plain by blast
    with False Some show ?thesis by (simp add: applyPaginationOptions_def)
  qed
qed

subsection \<open>Range strings in the specification's words\<close>

lemma isDigit_spec: "isDigit c = digit_spec c"
  unfolding isDigit_def digit_spec_def
  by (simp add: char_eq_iff_code [of c]) arith

lemma isDigit_eq: "isDigit = digit_spec"
  by (rule ext) (rule isDigit_spec)

lemma rangeForm_spec_iff:
  "rangeForm_spec r \<longleftrightarrow>
     (\<exists>ds es. ds \<noteq> [] \<and> list_all digit_spec ds \<and> list_all digit_spec es \<and>
              (r = ds \<or> r = ds @ ''-'' @ es))"
proof
  assume "rangeForm_spec r"
  then obtain k where k: "1 \<le> k" "k \<le> length r" "list_all digit_spec (take k r)"
      and rest: "case drop k r of [] \<Rightarrow> True | c # es \<Rightarrow> c = CHR ''-'' \<and> list_all digit_spec es"
    unfolding rangeForm_spec_def list_ex_iff by (auto simp del: upt_Suc)
  have ne: "take k r \<noteq> []" using k by auto
  have r: "r = take k r @ drop k r" by simp
  show "\<exists>ds es. ds \<noteq> [] \<and> list_all digit_spec ds \<and> list_all digit_spec es \<and>
              (r = ds \<or> r = ds @ ''-'' @ es)"
  proof (cases "drop k r")
    case Nil
    with r have "r = take k r" by simp
    with ne k(3) show ?thesis by (intro exI [of _ "take k r"] exI [of _ "[]"]) simp
  next
    case (Cons c es)
    with rest have c: "c = CHR ''-''" and es: "list_all digit_spec es" by simp_all
    from r Cons c have "r = take k r @ ''-'' @ es" by simp
    with ne k(3) es show ?thesis by (intro exI [of _ "take k r"] exI [of _ es]) simp
  qed
next
  assume "\<exists>ds es. ds \<noteq> [] \<and> list_all digit_spec ds \<and> list_all digit_spec es \<and>
              (r = ds \<or> r = ds @ ''-'' @ es)"
  then obtain ds es where ds: "ds \<noteq> []" "list_all digit_spec ds" and es: "list_all digit_spec es"
    and r: "r = ds \<or> r = ds @ ''-'' @ es" by blast
  have len: "1 \<le> length ds" using ds(1) by (cases ds) simp_all
  from r have "length ds \<in> set [1..<Suc (length r)] \<and> list_all digit_spec (take (length ds) r) \<and>
            (case drop (length ds) r of
               [] \<Rightarrow> True
             | c # es \<Rightarrow> c = CHR ''-'' \<and> list_all digit_spec es)"
    using ds es len by (auto simp del: upt_Suc)
  then show "rangeForm_spec r"
    unfolding rangeForm_spec_def list_ex_iff by blast
qed

lemma matchRange_None_iff: "matchRange r = None \<longleftrightarrow> \<not> rangeForm_spec r"
proof -
  have "matchRange r \<noteq> None" if "rangeForm_spec r"
  proof -
    from that obtain ds es where ds: "ds \<noteq> []" "list_all digit_spec ds"
      and es: "list_all digit_spec es" and r: "r = ds \<or> r = ds @ ''-'' @ es"
      unfolding rangeForm_spec_iff by blast
    from r show ?thesis
    proof
      assume "r = ds"
      then show ?thesis using matchRange_single [of ds] ds by (simp add: isDigit_eq)
    next
      assume "r = ds @ ''-'' @ es"
      then show ?thesis using matchRange_range [of ds es] ds es by (simp add: isDigit_eq)
    qed
  qed
  moreover have "rangeForm_spec r" if m: "matchRange r \<noteq> None"
  proof -
    define ds where "ds = takeWhile isDigit r"
    define rest where "rest = dropWhile isDigit r"
    have r: "r = ds @ rest" by (simp add: ds_def rest_def)
    have dig: "list_all digit_spec ds"
      unfolding ds_def isDigit_eq [symmetric] list_all_iff by (auto dest: set_takeWhileD)
    from m have ne: "ds \<noteq> []"
      by (auto simp: matchRange_def Let_def ds_def)
    show ?thesis
    proof (cases rest)
      case Nil
      with r ne dig show ?thesis
        unfolding rangeForm_spec_iff by (intro exI [of _ ds] exI [of _ "[]"]) simp
    next
      case (Cons c es)
      with m ne have "c = CHR ''-'' \<and> list_all isDigit es"
        by (auto simp: matchRange_def Let_def ds_def rest_def split: if_splits)
      with r Cons ne dig show ?thesis
        unfolding rangeForm_spec_iff
        by (intro exI [of _ ds] exI [of _ es]) (simp add: isDigit_eq)
    qed
  qed
  ultimately show ?thesis by blast
qed

lemma rangeInvalid_text:
  "rangeInvalid r = ''Paragraph range '' @ [CHR 0x22] @ r @ [CHR 0x22] @ '' is invalid or out of bounds.''"
  by (simp add: rangeInvalid_def dquote_def)

subsection \<open>Comparison without regard to case\<close>










subsection \<open>The lines of a text without carriage returns\<close>





section \<open>The claims\<close>

text \<open>
  C1. The claim: for every text and every option bundle, also with arbitrary characters in
  the section string, \<open>applyPaginationOptions\<close> returns a string and never throws. The
  code builds a regular expression from the section string without escaping it, so a
  section string that is not a well-formed pattern makes \<open>new RegExp\<close> throw: for the
  section \<open>(\<close> the call ends in a SyntaxError.
\<close>

theorem section_with_open_paren_throws:
  "applyPaginationOptions ''# Intro'' (noOptions\<lparr>section' := Some ''(''\<rparr>) = Some (Inl SyntaxError)"
  by code_simp

text \<open>
  C2. The claim as stated fails: with the paragraph range \<open>""\<close> on a document of three
  paragraphs the text comes back unchanged, not the "invalid or out of bounds"
  placeholder, because the empty string does not pass the test \<open>if (options.paragraphRange)\<close>.
\<close>

theorem empty_range_counterexample:
  "applyPaginationOptions ''p1\<newline>\<newline>p2\<newline>\<newline>p3'' (noOptions\<lparr>paragraphRange := Some []\<rparr>)
     = Some (Inr ''p1\<newline>\<newline>p2\<newline>\<newline>p3'') \<and>
   applyPaginationOptions ''p1\<newline>\<newline>p2\<newline>\<newline>p3'' (noOptions\<lparr>paragraphRange := Some []\<rparr>)
     \<noteq> Some (Inr (''Paragraph range '' @ [CHR 0x22] @ [] @ [CHR 0x22] @
                     '' is invalid or out of bounds.''))"
  by (simp add: applyPaginationOptions_def noOptions_def applyParagraphOption_def
      applyCharacterOption_def)

text \<open>
  C2, amended. Whenever extraction reaches the paragraph step (headings are not
  requested, and a section is either not requested or found), every non-empty range
  string that is not of the form \<open>N\<close>, \<open>N-\<close> or \<open>N-M\<close> yields the placeholder
  \<open>Paragraph range "r" is invalid or out of bounds.\<close> with the range string in the place
  of \<open>r\<close>; the empty range string counts as no range at all.
\<close>

theorem unparsable_range_placeholder:
  assumes "readHeadings opts \<noteq> Some True"
    and "section' opts = None \<or> section' opts = Some [] \<or>
         (\<exists>s t. section' opts = Some s \<and> extractSection text s = Some (Inr t) \<and> t \<noteq> [])"
  shows "(r \<noteq> [] \<and> \<not> rangeForm_spec r \<longrightarrow>
            applyPaginationOptions text (opts\<lparr>paragraphRange := Some r\<rparr>) =
              Some (Inr (''Paragraph range '' @ [CHR 0x22] @ r @ [CHR 0x22] @
                         '' is invalid or out of bounds.''))) \<and>
         applyPaginationOptions text (opts\<lparr>paragraphRange := Some []\<rparr>) =
            applyPaginationOptions text (opts\<lparr>paragraphRange := None\<rparr>)"
  using assms
  by (auto simp: applyPaginationOptions_def applyParagraphOption_def applyCharacterOption_def
      extractParagraphRange_def matchRange_None_iff [symmetric] rangeInvalid_text)

theorem unparsable_range_placeholder_witness:
  "readHeadings noOptions \<noteq> Some True \<and> section' noOptions = None \<and>
   ''1-x'' \<noteq> [] \<and> \<not> rangeForm_spec ''1-x'' \<and>
   applyPaginationOptions threeParagraphs (noOptions\<lparr>paragraphRange := Some ''1-x''\<rparr>) =
     Some (Inr (''Paragraph range '' @ [CHR 0x22] @ ''1-x'' @ [CHR 0x22] @
                  '' is invalid or out of bounds.'')) \<and>
   extractSection exampleDoc ''A'' = Some (Inr ''# A\<newline>## B\<newline>text1'') \<and>
   \<not> rangeForm_spec ''-2'' \<and>
   applyPaginationOptions exampleDoc
       (noOptions\<lparr>section' := Some ''A'', paragraphRange := Some ''-2''\<rparr>) =
     Some (Inr (''Paragraph range '' @ [CHR 0x22] @ ''-2'' @ [CHR 0x22] @
                  '' is invalid or out of bounds.''))"
proof -
  have h: "readHeadings noOptions \<noteq> Some True" "section' noOptions = None"
    by (simp_all add: noOptions_def)
  have m: "\<not> rangeForm_spec ''1-x''" "\<not> rangeForm_spec ''-2''"
    by (simp_all add: rangeForm_spec_def digit_spec_def)
  have e: "extractSection exampleDoc ''A'' = Some (Inr ''# A\<newline>## B\<newline>text1'')"
    by code_simp
  have h2: "readHeadings (noOptions\<lparr>section' := Some ''A''\<rparr>) \<noteq> Some True"
      "section' (noOptions\<lparr>section' := Some ''A''\<rparr>) = Some ''A''"
    by (simp_all add: noOptions_def)
  show ?thesis
    using unparsable_range_placeholder [of noOptions threeParagraphs "''1-x''"]
          unparsable_range_placeholder [of "noOptions\<lparr>section' := Some ''A''\<rparr>" exampleDoc "''-2''"]
          h m e h2
    by simp
qed

text \<open>
  C3. The claim: a fetch cancelled by the timeout fails with TimeoutError, any other
  transport failure with NetworkError. In the code the inner \<open>catch\<close> around \<open>fetch\<close>
  wraps every rejection, the AbortError of the timer too, with \<open>createNetworkError\<close>; the
  error that reaches the outer \<open>catch\<close> is named \<open>MCPSearXNGError\<close>, so the
  \<open>AbortError\<close> test there does not fire and a timeout is reported as NetworkError.
\<close>

theorem timeout_reported_as_network_error:
  "fst (fetchAndConvertToMarkdown worldAbort ''https://example.com/'' 10000 noOptions emptyCache)
     = Some (Inl (MCPSearXNGError NetworkError)) \<and>
   fst (fetchAndConvertToMarkdown worldAbort ''https://example.com/'' 10000 noOptions emptyCache)
     \<noteq> Some (Inl (createTimeoutError 10000 ''https://example.com/''))"
  by (simp add: fetchAndConvertToMarkdown_def SimpleCache_get_def worldAbort_def emptyCache_def
      tryBlock_def catchBlock_def createNetworkError_def createTimeoutError_def AbortError_def)

text \<open>
  C4. The claim: with \<open>maxLength\<close> given, \<open>maxLength = 0\<close> included, the window ends at
  \<open>min(length, start + maxLength)\<close>. The code tests \<open>maxLength ? ... : ...\<close>, which takes 0
  for "not given": with \<open>startChar = 0\<close> and \<open>maxLength = 0\<close> the whole text comes back,
  where the claim gives the empty string.
\<close>

theorem zero_maxLength_returns_remainder:
  "applyPaginationOptions ''abc'' (noOptions\<lparr>startChar := Some 0, maxLength := Some 0\<rparr>)
     = Some (Inr ''abc'')"
  by (simp add: applyPaginationOptions_def noOptions_def applyParagraphOption_def
      applyCharacterOption_def applyCharacterPagination_def js_slice_list_def)






text \<open>
  C7. \<open>get(url)\<close> returns the stored entry exactly when there is one for the URL and its
  age is at most the TTL, and absent otherwise; the cache is left as it was, except that an
  entry found expired is deleted in the same call.
\<close>

theorem SimpleCache_get_fresh_or_evicts:
  "fst (SimpleCache_get now url c) =
     (case cache c url of
        None \<Rightarrow> None
      | Some e \<Rightarrow> if now - timestamp e \<le> ttlMs c then Some e else None) \<and>
   snd (SimpleCache_get now url c) =
     (if fst (SimpleCache_get now url c) = None then c\<lparr>cache := (cache c)(url := None)\<rparr> else c)"
  by (auto simp: SimpleCache_get_def fun_upd_idem split: option.splits)

theorem SimpleCache_get_fresh_or_evicts_witness:
  "fst (SimpleCache_get 61000 ''u'' cache0) = Some entry0 \<and>
   snd (SimpleCache_get 61000 ''u'' cache0) = cache0 \<and>
   fst (SimpleCache_get 61001 ''u'' cache0) = None \<and>
   cache (snd (SimpleCache_get 61001 ''u'' cache0)) ''u'' = None"
  using SimpleCache_get_fresh_or_evicts [of 61000 "''u''" cache0]
        SimpleCache_get_fresh_or_evicts [of 61001 "''u''" cache0]
  by (simp add: cache0_def entry0_def)

text \<open>
  C8. When the page is fetched and read and the conversion succeeds with empty or
  whitespace-only text, the pipeline returns the warning string as a result, not as an
  error, and the cache is the one that the lookup left: nothing is written. Every run of
  the pipeline keeps the invariant that all stored entries have non-empty converted text.
\<close>

theorem blank_conversion_not_cached:
  "(fst (SimpleCache_get (now_get w) url c) = None \<and> newURL w url \<and>
    createProxyAgent w url = Inr p \<and> fetch w url = Inr resp \<and> ok resp \<and>
    text' resp = Inr html \<and> trim html \<noteq> [] \<and> translate w html = Inr md \<and> trim md = []
    \<longrightarrow> fetchAndConvertToMarkdown w url t opts c =
          (Some (Inr (createEmptyContentWarning w url (length html) html)),
           snd (SimpleCache_get (now_get w) url c))) \<and>
   ((\<forall>u e. cache c u = Some e \<longrightarrow> trim (markdownContent e) \<noteq> []) \<longrightarrow>
    (\<forall>u e. cache (snd (fetchAndConvertToMarkdown w url t opts c)) u = Some e
              \<longrightarrow> trim (markdownContent e) \<noteq> []))"
proof (intro conjI impI)
  assume a: "fst (SimpleCache_get (now_get w) url c) = None \<and> newURL w url \<and>
    createProxyAgent w url = Inr p \<and> fetch w url = Inr resp \<and> ok resp \<and>
    text' resp = Inr html \<and> trim html \<noteq> [] \<and> translate w html = Inr md \<and> trim md = []"
  then have "html \<noteq> []" by (auto simp: trim_def)
  with a show "fetchAndConvertToMarkdown w url t opts c =
          (Some (Inr (createEmptyContentWarning w url (length html) html)),
           snd (SimpleCache_get (now_get w) url c))"
    by (auto simp: fetchAndConvertToMarkdown_def tryBlock_def split: prod.splits option.splits)
next
  assume "\<forall>u e. cache c u = Some e \<longrightarrow> trim (markdownContent e) \<noteq> []"
  then have "nonblankEntries c" by (simp add: nonblankEntries_def)
  then have "nonblankEntries (snd (fetchAndConvertToMarkdown w url t opts c))"
    by (rule nonblank_pipeline)
  then show "\<forall>u e. cache (snd (fetchAndConvertToMarkdown w url t opts c)) u = Some e
              \<longrightarrow> trim (markdownContent e) \<noteq> []"
    by (simp add: nonblankEntries_def)
qed

theorem blank_conversion_not_cached_witness:
  "fetchAndConvertToMarkdown worldBlank ''https://example.com/'' 10000 noOptions emptyCache =
     (Some (Inr ''Content Warning: empty after conversion''), emptyCache)"
proof -
  have g: "SimpleCache_get 0 ''https://example.com/'' emptyCache = (None, emptyCache)"
    by (simp add: SimpleCache_get_def emptyCache_def)
  have t: "trim ''<img src=x>'' \<noteq> []" "trim ''  '' = []"
    by (simp_all add: trim_def isWhiteSpace_def)
  show ?thesis
    using blank_conversion_not_cached [of worldBlank "''https://example.com/''" emptyCache False
        "\<lparr>ok = True, status = 200, statusText = ''OK'', text' = Inr ''<img src=x>''\<rparr>"
        "''<img src=x>''" "''  ''" 10000 noOptions] g t
    by (simp add: worldBlank_def)
qed

text \<open>
  C9. With \<open>readHeadings\<close> set the result does not depend on any other option: it is the
  lines that begin with 1 to 6 \<open>#\<close> followed by a white space character, in the order of
  the document and joined by newlines, or the fixed message when there is no such line.
\<close>

theorem readHeadings_exclusive:
  assumes "readHeadings opts = Some True"
  shows "applyPaginationOptions text opts =
           Some (Inr (let hs = filter headingLine_spec (js_split [newline] text)
                      in if hs = [] then ''No headings found in the content.''
                         else js_join [newline] hs))"
  using assms
  by (simp add: applyPaginationOptions_def extractHeadings_spec)

theorem readHeadings_exclusive_witness:
  "readHeadings (noOptions\<lparr>readHeadings := Some True, section' := Some ''('', maxLength := Some 1\<rparr>)
     = Some True \<and>
   applyPaginationOptions exampleDoc
       (noOptions\<lparr>readHeadings := Some True, section' := Some ''('', maxLength := Some 1\<rparr>)
     = Some (Inr ''# A\<newline>## B\<newline># C'')"
proof -
  have "filter headingLine_spec (js_split [newline] exampleDoc) = [''# A'', ''## B'', ''# C'']"
    unfolding isHeadingLine_spec [symmetric] by code_simp
  then show ?thesis
    using readHeadings_exclusive
      [of "noOptions\<lparr>readHeadings := Some True, section' := Some ''('', maxLength := Some 1\<rparr>"
          exampleDoc]
    by (simp add: newline_def)
qed

text \<open>
  C10. The two extractions do not share a notion of heading. Heading extraction reports
  the lines with 1 to 6 \<open>#\<close> and a white space character after them. Section extraction,
  for a heading without pattern characters, starts a section at any line that begins with
  \<open>#\<close> and contains the heading: white space after the \<open>#\<close> is not required, and a line
  of seven \<open>#\<close> can match. It ends a section at any line that starts with a run of \<open>#\<close>
  no longer than the level of the section. In the document \<open># A\<close>, \<open>#B\<close>, \<open>body\<close> the
  line \<open>#B\<close> ends section \<open>A\<close> and is not among the headings.
\<close>

theorem heading_notions_differ:
  "extractHeadings text =
     (let hs = filter headingLine_spec (js_split [newline] text)
      in if hs = [] then ''No headings found in the content.'' else js_join [newline] hs) \<and>
   ((\<forall>c \<in> set heading. plainChar c) \<longrightarrow>
      (\<exists>re. RegExp_i (sectionPattern heading) = Some (Inr re) \<and>
            (\<forall>line. regex_test re line = sectionStart_spec heading line))) \<and>
   (i \<le> length lines \<longrightarrow>
      findSectionEnd L lines i =
        i + length (takeWhile (\<lambda>l. \<not> (0 < hashRun l \<and> hashRun l \<le> L)) (drop i lines))) \<and>
   sectionStart_spec ''A'' ''#A'' \<and> \<not> headingLine_spec ''#A'' \<and>
   sectionStart_spec ''A'' ''####### A'' \<and> \<not> headingLine_spec ''####### A'' \<and>
   extractSection ''#A\<newline>body'' ''A'' = Some (Inr ''#A\<newline>body'') \<and>
   extractHeadings ''#A\<newline>body'' = ''No headings found in the content.'' \<and>
   extractSection ''####### A\<newline>body'' ''A'' = Some (Inr ''####### A\<newline>body'') \<and>
   extractHeadings ''####### A\<newline>body'' = ''No headings found in the content.'' \<and>
   extractSection ''# A\<newline>#B\<newline>body'' ''A'' = Some (Inr ''# A'') \<and>
   extractHeadings ''# A\<newline>#B\<newline>body'' = ''# A''"
proof (intro conjI)
  show "extractHeadings text =
     (let hs = filter headingLine_spec (js_split [newline] text)
      in if hs = [] then ''No headings found in the content.'' else js_join [newline] hs)"
    by (rule extractHeadings_spec)
  show "(\<forall>c \<in> set heading. plainChar c) \<longrightarrow>
      (\<exists>re. RegExp_i (sectionPattern heading) = Some (Inr re) \<and>
            (\<forall>line. regex_test re line = sectionStart_spec heading line))"
    using RegExp_i_plain regex_test_sectionRegex by blast
  show "i \<le> length lines \<longrightarrow>
      findSectionEnd L lines i =
        i + length (takeWhile (\<lambda>l. \<not> (0 < hashRun l \<and> hashRun l \<le> L)) (drop i lines))"
    using findSectionEnd_takeWhile by blast
  have "regex_test (sectionRegex ''A'') ''#A''"
    by code_simp
  then show "sectionStart_spec ''A'' ''#A''"
    by (simp only: regex_test_sectionRegex simp_thms)
  have "\<not> isHeadingLine ''#A''"
    by code_simp
  then show "\<not> headingLine_spec ''#A''"
    by (simp only: isHeadingLine_spec simp_thms)
  have "regex_test (sectionRegex ''A'') ''####### A''"
    by code_simp
  then show "sectionStart_spec ''A'' ''####### A''"
    by (simp only: regex_test_sectionRegex simp_thms)
  have "\<not> isHeadingLine ''####### A''"
    by code_simp
  then show "\<not> headingLine_spec ''####### A''"
    by (simp only: isHeadingLine_spec simp_thms)
  show "extractSection ''#A\<newline>body'' ''A'' = Some (Inr ''#A\<newline>body'')"
    by code_simp
  show "extractHeadings ''#A\<newline>body'' = ''No headings found in the content.''"
    by code_simp
  show "extractSection ''####### A\<newline>body'' ''A'' = Some (Inr ''####### A\<newline>body'')"
    by code_simp
  show "extractHeadings ''####### A\<newline>body'' = ''No headings found in the content.''"
    by code_simp
  show "extractSection ''# A\<newline>#B\<newline>body'' ''A'' = Some (Inr ''# A'')"
    by code_simp
  show "extractHeadings ''# A\<newline>#B\<newline>body'' = ''# A''"
    by code_simp
qed

theorem heading_notions_differ_witness:
  "list_all plainChar ''A'' \<and>
   RegExp_i (sectionPattern ''A'') = Some (Inr regexA) \<and>
   regex_test regexA ''#A'' = sectionStart_spec ''A'' ''#A'' \<and>
   (1::nat) \<le> length [''# A'', ''#B'', ''body''] \<and>
   findSectionEnd 1 [''# A'', ''#B'', ''body''] 1 = 1 \<and>
   findSectionEnd 1 [''# A'', ''##B'', ''body''] 1 = 3"
proof -
  have p: "\<forall>c \<in> set ''A''. plainChar c"
    by (simp add: plainChar_def backslash_def)
  have r: "RegExp_i (sectionPattern ''A'') = Some (Inr regexA)"
    by code_simp
  have "regex_test regexA ''#A'' = sectionStart_spec ''A'' ''#A''"
    using heading_notions_differ [of exampleDoc "''A''" 1 "[''# A'', ''#B'', ''body'']" 1] p r
    by auto
  then show ?thesis
    using heading_notions_differ [of exampleDoc "''A''" 1 "[''# A'', ''#B'', ''body'']" 1]
          heading_notions_differ [of exampleDoc "''A''" 1 "[''# A'', ''##B'', ''body'']" 1] p r
    by (simp add: hashRun_def list_all_iff)
qed

end
